theory Spec2Isabelle
  imports Main
begin

section \<open>Boundary search: \<open>find_integer\<close>\<close>

text \<open>
  \<^verbatim>\<open>find_integer(f)\<close> of \<^verbatim>\<open>shrinking/common.py\<close> calls \<^verbatim>\<open>f\<close> on Python integers.
  \<^verbatim>\<open>f\<close> is any callable: it may read and change state of its own, so a predicate is
  modelled as a function from the argument and the state before the call to the answer
  and the state after it, and \<open>find_integer\<close> threads that state through its calls in
  the order the source makes them. Python integers are unbounded: \<open>int\<close>.

  The three loops of the source are three functions. The first is the
  \<^verbatim>\<open>for i in range(1, 5)\<close> scan, which returns \<^verbatim>\<open>i - 1\<close> at the first \<^verbatim>\<open>i\<close> that
  \<^verbatim>\<open>f\<close> rejects (\<open>Some\<close>), or falls through (\<open>None\<close>).
\<close>

fun linear_scan :: "(int \<Rightarrow> 's \<Rightarrow> bool \<times> 's) \<Rightarrow> int list \<Rightarrow> 's \<Rightarrow> int option \<times> 's" where
  "linear_scan f [] s = (None, s)"
| "linear_scan f (i # rest) s =
     (case f i s of (ok, s') \<Rightarrow>
        if \<not> ok then (Some (i - 1), s') else linear_scan f rest s')"

text \<open>
  \<^verbatim>\<open>while f(hi): lo = hi; hi *= 2\<close>. Nothing bounds the number of rounds, so the loop
  is a partial function: \<open>None\<close> is the run that never leaves the loop.
\<close>

partial_function (option) exponential_probe ::
  "(int \<Rightarrow> 's \<Rightarrow> bool \<times> 's) \<Rightarrow> int \<Rightarrow> int \<Rightarrow> 's \<Rightarrow> ((int \<times> int) \<times> 's) option" where
  "exponential_probe f lo hi s =
     (case f hi s of (ok, s') \<Rightarrow>
        if ok then exponential_probe f hi (hi * 2) s' else Some ((lo, hi), s'))"

declare exponential_probe.simps [code]

text \<open>
  \<^verbatim>\<open>while lo + 1 < hi: mid = (lo + hi) // 2; if f(mid): lo = mid else: hi = mid\<close>.
  Python's \<^verbatim>\<open>//\<close> rounds down, as \<open>div\<close> on \<open>int\<close> does. The distance \<open>hi - lo\<close>
  shrinks in each round.
\<close>

function binary_search ::
  "(int \<Rightarrow> 's \<Rightarrow> bool \<times> 's) \<Rightarrow> int \<Rightarrow> int \<Rightarrow> 's \<Rightarrow> int \<times> 's" where
  "binary_search f lo hi s =
     (if lo + 1 < hi then
        (let mid = (lo + hi) div 2 in
         case f mid s of (ok, s') \<Rightarrow>
           if ok then binary_search f mid hi s' else binary_search f lo mid s')
      else (lo, s))"
  by pat_completeness auto
termination
  by (relation "measure (\<lambda>(f, lo, hi, s). nat (hi - lo))") auto

declare binary_search.simps [simp del]

definition find_integer :: "(int \<Rightarrow> 's \<Rightarrow> bool \<times> 's) \<Rightarrow> 's \<Rightarrow> (int \<times> 's) option" where
  "find_integer f s =
     (case linear_scan f [1, 2, 3, 4] s of
        (Some r, s') \<Rightarrow> Some (r, s')
      | (None, s') \<Rightarrow>
          (case exponential_probe f 4 5 s' of
             None \<Rightarrow> None
           | Some ((lo, hi), s'') \<Rightarrow> Some (binary_search f lo hi s'')))"

text \<open>
  Two predicates to run \<open>find_integer\<close> on. \<open>pure_pred g\<close> is a predicate without
  side effects. \<open>logged f\<close> is \<open>f\<close> with a recorder around it: it appends the argument
  of every call to a list kept beside the state of \<open>f\<close>, so the list after a run is the
  sequence of arguments \<open>f\<close> was evaluated at, in order.
\<close>

definition pure_pred :: "(int \<Rightarrow> bool) \<Rightarrow> int \<Rightarrow> 's \<Rightarrow> bool \<times> 's" where
  "pure_pred g i s = (g i, s)"

definition logged ::
  "(int \<Rightarrow> 's \<Rightarrow> bool \<times> 's) \<Rightarrow> int \<Rightarrow> 's \<times> int list \<Rightarrow> bool \<times> 's \<times> int list" where
  "logged f i = (\<lambda>(s, calls). case f i s of (ok, s') \<Rightarrow> (ok, (s', calls @ [i])))"

text \<open>
  \<open>answers f g\<close>: the answer of \<open>f\<close> does not depend on its state and is \<open>g\<close>.
\<close>

definition answers :: "(int \<Rightarrow> 's \<Rightarrow> bool \<times> 's) \<Rightarrow> (int \<Rightarrow> bool) \<Rightarrow> bool" where
  "answers f g = (\<forall>i s. fst (f i s) = g i)"

text \<open>The predicate that is true on every input.\<close>

definition always_true :: "int \<Rightarrow> 's \<Rightarrow> bool \<times> 's" where
  "always_true i s = (True, s)"

text \<open>A predicate that is not monotonic: true up to 12, false above, except at 20.\<close>

definition not_monotonic :: "int \<Rightarrow> bool" where
  "not_monotonic i = (i \<le> 12 \<or> i = 20)"

text \<open>
  The calls \<open>find_integer\<close> makes as long as every answer is true have the arguments
  1, 2, 3, 4 (the scan) and then 5, 10, 20, ... (the doubling loop): \<open>probe k\<close> is the
  argument of call number \<open>k\<close>, counted from 0. For a predicate \<open>f\<close> started in state
  \<open>s\<close>, \<open>state_before f s k\<close> is the state \<open>f\<close> is in when that call is made, and
  \<open>answer f s k\<close> is what it answers.
\<close>

definition probe :: "nat \<Rightarrow> int" where
  "probe k = (if k < 4 then int k + 1 else 5 * 2 ^ (k - 4))"

primrec state_before :: "(int \<Rightarrow> 's \<Rightarrow> bool \<times> 's) \<Rightarrow> 's \<Rightarrow> nat \<Rightarrow> 's" where
  "state_before f s 0 = s"
| "state_before f s (Suc k) = snd (f (probe k) (state_before f s k))"

definition answer :: "(int \<Rightarrow> 's \<Rightarrow> bool \<times> 's) \<Rightarrow> 's \<Rightarrow> nat \<Rightarrow> bool" where
  "answer f s k = fst (f (probe k) (state_before f s k))"

text \<open>
  A predicate with a state of its own: it counts its calls and answers true to the
  first five, whatever the argument.
\<close>

definition tiring :: "int \<Rightarrow> nat \<Rightarrow> bool \<times> nat" where
  "tiring i n = (n < 5, n + 1)"

section \<open>The shrinker driver: class \<open>Shrinker\<close>\<close>

text \<open>
  \<^verbatim>\<open>Shrinker\<close> is a base class. A subclass supplies the four methods that raise
  \<^verbatim>\<open>NotImplementedError\<close> in the base class (\<^verbatim>\<open>short_circuit\<close>, \<^verbatim>\<open>preamble\<close>,
  \<^verbatim>\<open>left_is_better\<close>, \<^verbatim>\<open>run_step\<close>) and may override \<^verbatim>\<open>make_immutable\<close> (the
  identity in the base class) and \<^verbatim>\<open>check_invariants\<close> (\<^verbatim>\<open>pass\<close> in the base class);
  the caller supplies the acceptance predicate. The model takes these methods as
  parameters.

  The methods that \<^verbatim>\<open>incorporate\<close> calls back are arbitrary code: they may have effects
  outside the shrinker object. That outside is a state of type \<open>'w\<close>, the \<^emph>\<open>world\<close>,
  which every callback receives and returns. \<^verbatim>\<open>check_invariants\<close> returns nothing; it
  can only raise, which is the error value. \<^verbatim>\<open>make_immutable\<close> is a conversion of the
  value and is a function.
\<close>

datatype error = InvariantViolation

record ('v, 'w) hooks =
  make_immutable :: "'v \<Rightarrow> 'v"
  check_invariants :: "'v \<Rightarrow> 'w \<Rightarrow> error + 'w"
  left_is_better :: "'v \<Rightarrow> 'v \<Rightarrow> 'w \<Rightarrow> bool \<times> 'w"
  predicate :: "'v \<Rightarrow> 'w \<Rightarrow> bool \<times> 'w"

text \<open>
  The attributes of a shrinker object, as \<^verbatim>\<open>__init__\<close> sets them: \<^verbatim>\<open>current\<close>,
  \<^verbatim>\<open>random\<close>, \<^verbatim>\<open>full\<close>, \<^verbatim>\<open>changes\<close> and the private set \<^verbatim>\<open>__seen\<close>; the private
  \<^verbatim>\<open>__predicate\<close> is never assigned again and is the field \<open>predicate\<close> of the hooks.
  \<^verbatim>\<open>changes\<close> starts at 0 and the class only ever adds 1 to it: a natural number. The
  world is carried in the same record.
\<close>

record ('v, 'r, 'w) shrinker =
  current :: 'v
  random_source :: 'r
  full :: bool
  changes :: nat
  seen :: "'v set"
  world :: 'w

definition init ::
  "('v, 'w) hooks \<Rightarrow> 'v \<Rightarrow> 'r \<Rightarrow> bool \<Rightarrow> 'w \<Rightarrow> ('v, 'r, 'w) shrinker" where
  "init H initial rnd full_mode w =
     \<lparr>current = make_immutable H initial, random_source = rnd, full = full_mode,
      changes = 0, seen = {}, world = w\<rparr>"

text \<open>
  \<^verbatim>\<open>incorporate\<close>, statement by statement. The result is the error of a raising
  \<^verbatim>\<open>check_invariants\<close>, or the returned boolean with the object after the call.
\<close>

definition incorporate ::
  "('v, 'w) hooks \<Rightarrow> 'v \<Rightarrow> ('v, 'r, 'w) shrinker \<Rightarrow> error + bool \<times> ('v, 'r, 'w) shrinker" where
  "incorporate H value0 s =
     (let val = make_immutable H value0 in
      case check_invariants H val (world s) of
        Inl e \<Rightarrow> Inl e
      | Inr w1 \<Rightarrow>
          (case left_is_better H val (current s) w1 of (better, w2) \<Rightarrow>
             if \<not> better then Inr (False, s\<lparr>world := w2\<rparr>)
             else if val \<in> seen s then Inr (False, s\<lparr>world := w2\<rparr>)
             else
               (case predicate H val w2 of (ok, w3) \<Rightarrow>
                  if ok
                  then Inr (True, s\<lparr>seen := insert val (seen s), world := w3,
                                    changes := changes s + 1, current := val\<rparr>)
                  else Inr (False, s\<lparr>seen := insert val (seen s), world := w3\<rparr>))))"

text \<open>\<^verbatim>\<open>consider\<close> (the name is a keyword of the proof language, hence the prime).\<close>

definition consider' ::
  "('v, 'w) hooks \<Rightarrow> 'v \<Rightarrow> ('v, 'r, 'w) shrinker \<Rightarrow> error + bool \<times> ('v, 'r, 'w) shrinker" where
  "consider' H value0 s =
     (let val = make_immutable H value0 in
      if val = current s then Inr (True, s) else incorporate H val s)"

text \<open>
  The passes of a subclass. \<^verbatim>\<open>short_circuit\<close>, \<^verbatim>\<open>preamble\<close> and \<^verbatim>\<open>run_step\<close> are
  methods: arbitrary code on the object, which may call \<^verbatim>\<open>consider\<close> and
  \<^verbatim>\<open>incorporate\<close>. Each is a function from the object before to the object after, or
  to the error that escapes it; \<^verbatim>\<open>short_circuit\<close> also returns the boolean that
  \<^verbatim>\<open>run\<close> tests.
\<close>

record ('v, 'r, 'w) passes =
  short_circuit :: "('v, 'r, 'w) shrinker \<Rightarrow> error + bool \<times> ('v, 'r, 'w) shrinker"
  preamble :: "('v, 'r, 'w) shrinker \<Rightarrow> error + ('v, 'r, 'w) shrinker"
  run_step :: "('v, 'r, 'w) shrinker \<Rightarrow> error + ('v, 'r, 'w) shrinker"

text \<open>
  \<^verbatim>\<open>while self.changes != prev: prev = self.changes; self.run_step()\<close>. The loop runs
  as long as passes keep changing the counter, so it is a partial function.
\<close>

partial_function (option) run_loop ::
  "('v, 'r, 'w) passes \<Rightarrow> int \<Rightarrow> ('v, 'r, 'w) shrinker \<Rightarrow> (error + ('v, 'r, 'w) shrinker) option"
  where
  "run_loop ps prev s =
     (if int (changes s) \<noteq> prev then
        (case run_step ps s of
           Inl e \<Rightarrow> Some (Inl e)
         | Inr s' \<Rightarrow> run_loop ps (int (changes s)) s')
      else Some (Inr s))"

declare run_loop.simps [code]

definition run ::
  "('v, 'r, 'w) passes \<Rightarrow> ('v, 'r, 'w) shrinker \<Rightarrow> (error + ('v, 'r, 'w) shrinker) option" where
  "run P s =
     (case short_circuit P s of
        Inl e \<Rightarrow> Some (Inl e)
      | Inr (stop, s0) \<Rightarrow>
          if stop then Some (Inr s0)
          else
            (case preamble P s0 of
               Inl e \<Rightarrow> Some (Inl e)
             | Inr s1 \<Rightarrow> if full s1 then run_loop P (- 1) s1 else Some (run_step P s1)))"


subsection \<open>Sessions\<close>

text \<open>
  A session is what the passes do to the object through its two operations: a sequence
  of \<^verbatim>\<open>consider\<close> and \<^verbatim>\<open>incorporate\<close> calls. A raising call ends the session.
\<close>

datatype 'v call = Consider 'v | Incorporate 'v

fun do_call ::
  "('v, 'w) hooks \<Rightarrow> 'v call \<Rightarrow> ('v, 'r, 'w) shrinker \<Rightarrow> error + bool \<times> ('v, 'r, 'w) shrinker" where
  "do_call H (Consider v) s = consider' H v s"
| "do_call H (Incorporate v) s = incorporate H v s"

fun do_calls ::
  "('v, 'w) hooks \<Rightarrow> 'v call list \<Rightarrow> ('v, 'r, 'w) shrinker \<Rightarrow> error + ('v, 'r, 'w) shrinker" where
  "do_calls H [] s = Inr s"
| "do_calls H (c # cs) s =
     (case do_call H c s of Inl e \<Rightarrow> Inl e | Inr (b, s') \<Rightarrow> do_calls H cs s')"

text \<open>
  A pass \<open>step\<close> changes the object only through \<^verbatim>\<open>consider\<close> and \<^verbatim>\<open>incorporate\<close>
  when, from every object, what it does is what some sequence of such calls does.
  The sequence may depend on the object and so on every answer the pass has seen.
\<close>

definition only_calls ::
  "('v, 'w) hooks \<Rightarrow> (('v, 'r, 'w) shrinker \<Rightarrow> error + ('v, 'r, 'w) shrinker) \<Rightarrow> bool" where
  "only_calls H step = (\<forall>s. \<exists>cs. step s = do_calls H cs s)"

text \<open>
  The same for a method that also returns an answer, as \<^verbatim>\<open>short_circuit\<close> does:
  \<open>object_after\<close> forgets the answer and keeps the object.
\<close>

definition object_after :: "error + bool \<times> 's \<Rightarrow> error + 's" where
  "object_after r = (case r of Inl e \<Rightarrow> Inl e | Inr (b, s) \<Rightarrow> Inr s)"

definition test_only_calls ::
  "('v, 'w) hooks \<Rightarrow> (('v, 'r, 'w) shrinker \<Rightarrow> error + bool \<times> ('v, 'r, 'w) shrinker) \<Rightarrow> bool"
  where
  "test_only_calls H test = only_calls H (\<lambda>s. object_after (test s))"

text \<open>
  \<open>n\<close> invocations of \<^verbatim>\<open>run_step\<close> in a row, stopping at the first that raises.
\<close>

primrec run_steps ::
  "('v, 'r, 'w) passes \<Rightarrow> nat \<Rightarrow> ('v, 'r, 'w) shrinker \<Rightarrow> error + ('v, 'r, 'w) shrinker" where
  "run_steps P 0 s = Inr s"
| "run_steps P (Suc n) s =
     (case run_step P s of Inl e \<Rightarrow> Inl e | Inr s' \<Rightarrow> run_steps P n s')"

text \<open>
  \<open>unchanged_pass ps s k\<close>: starting from \<open>s\<close>, \<open>k\<close> passes run without raising, the
  next pass runs too, and that pass leaves \<^verbatim>\<open>changes\<close> as it found it.
\<close>

definition unchanged_pass :: "('v, 'r, 'w) passes \<Rightarrow> ('v, 'r, 'w) shrinker \<Rightarrow> nat \<Rightarrow> bool" where
  "unchanged_pass ps s k =
     (case run_steps ps k s of
        Inl e \<Rightarrow> False
      | Inr a \<Rightarrow> (case run_step ps a of Inl e \<Rightarrow> False | Inr b \<Rightarrow> changes b = changes a))"

text \<open>
  \<open>stops_at ps s t\<close>: \<open>t\<close> is the object after the first pass from \<open>s\<close> that leaves
  \<^verbatim>\<open>changes\<close> unchanged, no pass up to it having raised.
\<close>

definition stops_at :: "('v, 'r, 'w) passes \<Rightarrow> ('v, 'r, 'w) shrinker \<Rightarrow> ('v, 'r, 'w) shrinker \<Rightarrow> bool" where
  "stops_at ps s t \<longleftrightarrow>
     (\<exists>n. run_steps ps (Suc n) s = Inr t \<and> unchanged_pass ps s n \<and>
          (\<forall>k<n. \<not> unchanged_pass ps s k))"

subsection \<open>Recording the callbacks\<close>

text \<open>
  \<open>recording H\<close> is \<open>H\<close> with a recorder around each callback: the world gets a list
  beside it, and every call of \<^verbatim>\<open>check_invariants\<close>, \<^verbatim>\<open>left_is_better\<close> or the
  predicate that returns appends its arguments to the list. The list after a session is
  the sequence of callback invocations of the session. (A raising \<^verbatim>\<open>check_invariants\<close>
  ends the session; the error carries no world.)
\<close>

datatype 'v event = CheckInvariants 'v | LeftIsBetter 'v 'v | Predicate 'v

definition recording :: "('v, 'w) hooks \<Rightarrow> ('v, 'w \<times> 'v event list) hooks" where
  "recording H =
     \<lparr>make_immutable = make_immutable H,
      check_invariants = (\<lambda>v (w, log).
        case check_invariants H v w of
          Inl e \<Rightarrow> Inl e
        | Inr w' \<Rightarrow> Inr (w', log @ [CheckInvariants v])),
      left_is_better = (\<lambda>l r (w, log).
        case left_is_better H l r w of (b, w') \<Rightarrow> (b, (w', log @ [LeftIsBetter l r]))),
      predicate = (\<lambda>v (w, log).
        case predicate H v w of (b, w') \<Rightarrow> (b, (w', log @ [Predicate v])))\<rparr>"

fun predicate_calls :: "'v event list \<Rightarrow> 'v list" where
  "predicate_calls [] = []"
| "predicate_calls (Predicate v # es) = v # predicate_calls es"
| "predicate_calls (e # es) = predicate_calls es"

subsection \<open>A small subclass\<close>

text \<open>
  A subclass to run the driver on: it shrinks integers towards 5. Values are made
  canonical by \<open>abs\<close>, a value of 100 or more violates the invariant, smaller is better,
  and a value is accepted when it is at least 5. The world counts the callbacks made.
  \<^verbatim>\<open>short_circuit\<close> is \<^verbatim>\<open>return self.consider(0)\<close>; the preamble considers the
  current value; a pass tries the value below the current one, first with
  \<^verbatim>\<open>incorporate\<close>, then with \<^verbatim>\<open>consider\<close>.
\<close>

definition toy_hooks :: "(int, nat) hooks" where
  "toy_hooks =
     \<lparr>make_immutable = abs,
      check_invariants = (\<lambda>v w. if v < 100 then Inr (w + 1) else Inl InvariantViolation),
      left_is_better = (\<lambda>l r w. (l < r, w + 1)),
      predicate = (\<lambda>v w. (5 \<le> v, w + 1))\<rparr>"

definition toy_passes :: "(int, nat) hooks \<Rightarrow> (int, unit, nat) passes" where
  "toy_passes H =
     \<lparr>short_circuit = (\<lambda>s. consider' H 0 s),
      preamble = (\<lambda>s. do_calls H [Consider (current s)] s),
      run_step = (\<lambda>s. do_calls H [Incorporate (current s - 1), Consider (current s - 1)] s)\<rparr>"


definition accepting_hooks :: "(int, nat) hooks" where
  "accepting_hooks = toy_hooks\<lparr>predicate := (\<lambda>v w. (True, w + 1))\<rparr>"

definition strict_hooks :: "(int, nat) hooks" where
  "strict_hooks =
     toy_hooks\<lparr>check_invariants :=
       (\<lambda>v w. if 0 < v then Inr (w + 1) else Inl InvariantViolation)\<rparr>"



section \<open>Properties of the boundary search\<close>

subsection \<open>One round of each loop\<close>

lemma linear_scan_unfold:
  "linear_scan f (i # rest) s =
     (if fst (f i s) then linear_scan f rest (snd (f i s)) else (Some (i - 1), snd (f i s)))"
  by (simp split: prod.splits)

lemma exponential_probe_unfold:
  "exponential_probe f lo hi s =
     (if fst (f hi s) then exponential_probe f hi (hi * 2) (snd (f hi s))
      else Some ((lo, hi), snd (f hi s)))"
  by (subst exponential_probe.simps) (simp split: prod.splits)

lemma binary_search_unfold:
  "binary_search f lo hi s =
     (if lo + 1 < hi then
        if fst (f ((lo + hi) div 2) s)
        then binary_search f ((lo + hi) div 2) hi (snd (f ((lo + hi) div 2) s))
        else binary_search f lo ((lo + hi) div 2) (snd (f ((lo + hi) div 2) s))
      else (lo, s))"
  by (subst binary_search.simps) (simp add: Let_def split: prod.splits)

lemma pure_pred_apply [simp]: "pure_pred g i s = (g i, s)"
  by (simp add: pure_pred_def)

lemma logged_apply: "logged f i (s, calls) = (fst (f i s), (snd (f i s), calls @ [i]))"
  by (simp add: logged_def split: prod.splits)

lemma answers_pure_pred: "answers (pure_pred g) g"
  by (simp add: answers_def)

lemma answers_logged: "answers f g \<Longrightarrow> answers (logged f) g"
  by (simp add: answers_def split_paired_all logged_apply)

subsection \<open>The arguments probed\<close>

lemma linear_scan_calls:
  "linear_scan (logged f) js (s, calls) = (r, (s', calls')) \<Longrightarrow> \<exists>k. calls' = calls @ take k js"
proof (induction js arbitrary: s calls)
  case Nil
  then show ?case by simp
next
  case (Cons j js)
  show ?case
  proof (cases "fst (f j s)")
    case True
    with Cons.prems have "linear_scan (logged f) js (snd (f j s), calls @ [j]) = (r, (s', calls'))"
      by (simp add: logged_apply)
    from Cons.IH [OF this] obtain k where "calls' = (calls @ [j]) @ take k js" ..
    then have "calls' = calls @ take (Suc k) (j # js)" by simp
    then show ?thesis ..
  next
    case False
    with Cons.prems have "calls' = calls @ take 1 (j # js)"
      by (simp add: logged_apply)
    then show ?thesis ..
  qed
qed

lemma exponential_probe_calls_aux:
  assumes "exponential_probe g lo hi st = Some res"
  shows "g = logged f \<longrightarrow> 0 < hi \<longrightarrow> lo < hi \<longrightarrow> distinct (snd st) \<longrightarrow>
         (\<forall>x\<in>set (snd st). x \<le> lo) \<longrightarrow>
         distinct (snd (snd res)) \<and> lo \<le> fst (fst res) \<and> fst (fst res) < snd (fst res) \<and>
         (\<forall>x\<in>set (snd (snd res)). x \<le> fst (fst res) \<or> snd (fst res) \<le> x) \<and>
         set (snd (snd res)) \<subseteq> set (snd st) \<union> {x. hi \<le> x}"
  using assms
proof (rule exponential_probe.raw_induct [where P = "\<lambda>g lo hi st res.
         g = logged f \<longrightarrow> 0 < hi \<longrightarrow> lo < hi \<longrightarrow> distinct (snd st) \<longrightarrow>
         (\<forall>x\<in>set (snd st). x \<le> lo) \<longrightarrow>
         distinct (snd (snd res)) \<and> lo \<le> fst (fst res) \<and> fst (fst res) < snd (fst res) \<and>
         (\<forall>x\<in>set (snd (snd res)). x \<le> fst (fst res) \<or> snd (fst res) \<le> x) \<and>
         set (snd (snd res)) \<subseteq> set (snd st) \<union> {x. hi \<le> x}", rotated], goal_cases)
  case (1 ep g lo hi st res)
  obtain s calls where st: "st = (s, calls)" by (cases st)
  show ?case
  proof (intro impI)
    assume g: "g = logged f" and hi: "0 < hi" and lohi: "lo < hi"
      and dist: "distinct (snd st)" and below: "\<forall>x\<in>set (snd st). x \<le> lo"
    show "distinct (snd (snd res)) \<and> lo \<le> fst (fst res) \<and> fst (fst res) < snd (fst res) \<and>
          (\<forall>x\<in>set (snd (snd res)). x \<le> fst (fst res) \<or> snd (fst res) \<le> x) \<and>
          set (snd (snd res)) \<subseteq> set (snd st) \<union> {x. hi \<le> x}"
    proof (cases "fst (f hi s)")
      case True
      with 1(2) have again: "ep g hi (hi * 2) (snd (f hi s), calls @ [hi]) = Some res"
        by (simp add: st g logged_apply)
      have "distinct (snd (snd res)) \<and> hi \<le> fst (fst res) \<and> fst (fst res) < snd (fst res) \<and>
            (\<forall>x\<in>set (snd (snd res)). x \<le> fst (fst res) \<or> snd (fst res) \<le> x) \<and>
            set (snd (snd res)) \<subseteq> set (snd (snd (f hi s), calls @ [hi])) \<union> {x. hi * 2 \<le> x}"
        using 1(1) [OF again] g hi lohi dist below by (auto simp: st)
      then show ?thesis using hi lohi by (auto simp: st)
    next
      case False
      with 1(2) have "res = ((lo, hi), (snd (f hi s), calls @ [hi]))"
        by (simp add: st g logged_apply)
      then show ?thesis using hi lohi dist below by (auto simp: st)
    qed
  qed
qed

lemma exponential_probe_calls:
  assumes "exponential_probe (logged f) lo hi (s, calls) = Some ((lo', hi'), (s', calls'))"
    and "0 < hi" and "lo < hi" and "distinct calls" and "\<forall>x\<in>set calls. x \<le> lo"
  shows "distinct calls' \<and> lo \<le> lo' \<and> lo' < hi' \<and> (\<forall>x\<in>set calls'. x \<le> lo' \<or> hi' \<le> x) \<and>
         set calls' \<subseteq> set calls \<union> {x. hi \<le> x}"
  using exponential_probe_calls_aux [OF assms(1), of f] assms(2-) by simp

lemma binary_search_calls:
  "binary_search (logged f) lo hi (s, calls) = (r, (s', calls')) \<Longrightarrow>
   distinct calls \<Longrightarrow> \<forall>x\<in>set calls. x \<le> lo \<or> hi \<le> x \<Longrightarrow>
   distinct calls' \<and> set calls' \<subseteq> set calls \<union> {x. lo < x \<and> x < hi}"
proof (induction "logged f" lo hi "(s, calls)" arbitrary: s calls rule: binary_search.induct)
  case (1 lo hi)
  show ?case
  proof (cases "lo + 1 < hi")
    case False
    with 1(3) have "calls' = calls" by (simp add: binary_search_unfold)
    with 1(4) show ?thesis by simp
  next
    case True
    define mid where "mid = (lo + hi) div 2"
    have mid: "lo < mid" "mid < hi" using True by (simp_all add: mid_def)
    have fresh: "mid \<notin> set calls" using 1(5) mid by auto
    show ?thesis
    proof (cases "fst (f mid s)")
      case ok: True
      have eq: "(True, (snd (f mid s), calls @ [mid])) = logged f mid (s, calls)"
        using ok by (simp add: logged_apply)
      have run: "binary_search (logged f) mid hi (snd (f mid s), calls @ [mid]) = (r, (s', calls'))"
        using 1(3) True ok by (subst (asm) binary_search_unfold) (simp add: mid_def logged_apply)
      have "distinct calls' \<and> set calls' \<subseteq> set (calls @ [mid]) \<union> {x. mid < x \<and> x < hi}"
        using 1(4,5) fresh mid by (intro 1(1) [OF True mid_def eq _ run]) auto
      then show ?thesis using mid by auto
    next
      case no: False
      have eq: "(False, (snd (f mid s), calls @ [mid])) = logged f mid (s, calls)"
        using no by (simp add: logged_apply)
      have run: "binary_search (logged f) lo mid (snd (f mid s), calls @ [mid]) = (r, (s', calls'))"
        using 1(3) True no by (subst (asm) binary_search_unfold) (simp add: mid_def logged_apply)
      have "distinct calls' \<and> set calls' \<subseteq> set (calls @ [mid]) \<union> {x. lo < x \<and> x < mid}"
        using 1(4,5) fresh mid by (intro 1(2) [OF True mid_def eq _ run]) auto
      then show ?thesis using mid by auto
    qed
  qed
qed

lemma find_integer_calls:
  assumes "find_integer (logged f) (s, []) = Some (r, (s', calls))"
  shows "distinct calls \<and> (\<forall>i\<in>set calls. 0 < i)"
proof -
  obtain r1 s1 calls1 where lin: "linear_scan (logged f) [1, 2, 3, 4] (s, []) = (r1, (s1, calls1))"
    by (metis prod.exhaust)
  from linear_scan_calls [OF lin] obtain k where "calls1 = take k [1, 2, 3, 4]" by auto
  moreover have "set (take k [1, 2, 3, 4 :: int]) \<subseteq> {1, 2, 3, 4}"
    using set_take_subset [of k "[1, 2, 3, 4 :: int]"] by simp
  ultimately have calls1: "distinct calls1" "\<forall>x\<in>set calls1. 0 < x \<and> x \<le> 4"
    by auto
  show ?thesis
  proof (cases r1)
    case (Some r')
    with assms lin have "calls = calls1" by (simp add: find_integer_def)
    with calls1 show ?thesis by auto
  next
    case None
    with assms lin obtain lo hi s2 calls2
      where probe: "exponential_probe (logged f) 4 5 (s1, calls1) = Some ((lo, hi), (s2, calls2))"
        and bin: "binary_search (logged f) lo hi (s2, calls2) = (r, (s', calls))"
      by (auto simp: find_integer_def split: option.splits)
    from exponential_probe_calls [OF probe] calls1
    have calls2: "distinct calls2" "4 \<le> lo" "\<forall>x\<in>set calls2. x \<le> lo \<or> hi \<le> x"
      "set calls2 \<subseteq> set calls1 \<union> {x. 5 \<le> x}"
      by auto
    from binary_search_calls [OF bin calls2(1,3)]
    have "distinct calls" "set calls \<subseteq> set calls2 \<union> {x. lo < x \<and> x < hi}" by auto
    with calls1 calls2 show ?thesis by fastforce
  qed
qed

subsection \<open>The value returned\<close>

lemma linear_scan_result:
  assumes "answers f g"
  shows "linear_scan f [1, 2, 3, 4] s = (Some r, s') \<Longrightarrow> (r = 0 \<or> g r) \<and> \<not> g (r + 1)"
    and "linear_scan f [1, 2, 3, 4] s = (None, s') \<Longrightarrow> g 4"
  using assms by (auto simp: answers_def linear_scan_unfold simp del: linear_scan.simps(2) split: if_splits)

lemma exponential_probe_result_aux:
  assumes "exponential_probe f lo hi s = Some res"
  shows "answers f g \<longrightarrow> 0 < hi \<longrightarrow> lo < hi \<longrightarrow> g lo \<longrightarrow>
         g (fst (fst res)) \<and> \<not> g (snd (fst res)) \<and> fst (fst res) < snd (fst res)"
  using assms
proof (rule exponential_probe.raw_induct [where P = "\<lambda>f lo hi s res.
         answers f g \<longrightarrow> 0 < hi \<longrightarrow> lo < hi \<longrightarrow> g lo \<longrightarrow>
         g (fst (fst res)) \<and> \<not> g (snd (fst res)) \<and> fst (fst res) < snd (fst res)", rotated],
       goal_cases)
  case (1 ep f lo hi s res)
  show ?case
  proof (intro impI)
    assume f: "answers f g" and hi: "0 < hi" and lohi: "lo < hi" and lo: "g lo"
    show "g (fst (fst res)) \<and> \<not> g (snd (fst res)) \<and> fst (fst res) < snd (fst res)"
    proof (cases "g hi")
      case True
      then have "fst (f hi s)" using f by (simp add: answers_def)
      with 1(2) have "ep f hi (hi * 2) (snd (f hi s)) = Some res"
        by (simp split: prod.splits)
      from 1(1) [OF this] f hi True show ?thesis by simp
    next
      case False
      then have "\<not> fst (f hi s)" using f by (simp add: answers_def)
      with 1(2) have "res = ((lo, hi), snd (f hi s))"
        by (auto split: prod.splits)
      with False lo lohi show ?thesis by simp
    qed
  qed
qed

lemma binary_search_result:
  "binary_search f lo hi s = (r, s') \<Longrightarrow> answers f g \<Longrightarrow> lo < hi \<Longrightarrow> g lo \<Longrightarrow> \<not> g hi \<Longrightarrow>
   g r \<and> \<not> g (r + 1)"
proof (induction f lo hi s rule: binary_search.induct)
  case (1 f lo hi s)
  show ?case
  proof (cases "lo + 1 < hi")
    case False
    with 1(3) have "r = lo" by (simp add: binary_search_unfold)
    moreover from False 1(5) have "hi = lo + 1" by simp
    ultimately show ?thesis using 1(6,7) by simp
  next
    case True
    define mid where "mid = (lo + hi) div 2"
    have mid: "lo < mid" "mid < hi" using True by (simp_all add: mid_def)
    show ?thesis
    proof (cases "g mid")
      case ok: True
      then have fm: "fst (f mid s)" using 1(4) by (simp add: answers_def)
      then have eq: "(True, snd (f mid s)) = f mid s" by (metis prod.collapse)
      have run: "binary_search f mid hi (snd (f mid s)) = (r, s')"
        using 1(3) True fm by (subst (asm) binary_search_unfold) (simp add: mid_def)
      show ?thesis using 1(1) [OF True mid_def eq _ run 1(4) mid(2) ok 1(7)] by simp
    next
      case no: False
      then have fm: "\<not> fst (f mid s)" using 1(4) by (simp add: answers_def)
      then have eq: "(False, snd (f mid s)) = f mid s" by (metis prod.collapse)
      have run: "binary_search f lo mid (snd (f mid s)) = (r, s')"
        using 1(3) True fm by (subst (asm) binary_search_unfold) (simp add: mid_def)
      show ?thesis using 1(2) [OF True mid_def eq _ run 1(4) mid(1) 1(6) no] by simp
    qed
  qed
qed

text \<open>
  The docstring of \<^verbatim>\<open>find_integer\<close>: the result \<open>n\<close> has \<open>f(n)\<close> true (or is 0, where
  \<open>f\<close> is assumed true) and \<open>f(n + 1)\<close> false.
\<close>

lemma find_integer_result:
  assumes "find_integer f s = Some (r, s')" and "answers f g"
  shows "(r = 0 \<or> g r) \<and> \<not> g (r + 1)"
proof -
  obtain r1 s1 where lin: "linear_scan f [1, 2, 3, 4] s = (r1, s1)"
    by (metis prod.exhaust)
  show ?thesis
  proof (cases r1)
    case (Some r')
    with assms(1) lin have "r' = r" by (simp add: find_integer_def)
    with linear_scan_result(1) [OF assms(2)] lin Some show ?thesis by simp
  next
    case None
    with assms(1) lin obtain lo hi s2
      where probe: "exponential_probe f 4 5 s1 = Some ((lo, hi), s2)"
        and bin: "binary_search f lo hi s2 = (r, s')"
      by (auto simp: find_integer_def split: option.splits)
    have "g 4" using linear_scan_result(2) [OF assms(2)] lin None by simp
    with exponential_probe_result_aux [OF probe, of g] assms(2)
    have "g lo" "\<not> g hi" "lo < hi" by simp_all
    with binary_search_result [OF bin assms(2)] show ?thesis by simp
  qed
qed

subsection \<open>Termination\<close>

lemma exponential_probe_returns:
  "\<forall>s. \<not> fst (f (hi * 2 ^ k) s) \<Longrightarrow> \<exists>res. exponential_probe f lo hi s = Some res"
proof (induction k arbitrary: lo hi s)
  case 0
  then have "\<not> fst (f hi s)" by simp
  then show ?case by (subst exponential_probe_unfold) simp
next
  case (Suc k)
  have "\<forall>s. \<not> fst (f (hi * 2 * 2 ^ k) s)" using Suc.prems by (simp add: mult.assoc)
  from Suc.IH [OF this] have "\<exists>res. exponential_probe f hi (hi * 2) (snd (f hi s)) = Some res" .
  then show ?case by (subst exponential_probe_unfold) simp
qed

lemma exponential_probe_diverges_aux:
  assumes "exponential_probe f lo hi s = Some res"
  shows "answers f g \<longrightarrow> (\<forall>k. g (hi * 2 ^ k)) \<longrightarrow> False"
  using assms
proof (rule exponential_probe.raw_induct [where P = "\<lambda>f lo hi s res.
         answers f g \<longrightarrow> (\<forall>k. g (hi * 2 ^ k)) \<longrightarrow> False", rotated], goal_cases)
  case (1 ep f lo hi s res)
  show ?case
  proof (intro impI)
    assume f: "answers f g" and always: "\<forall>k. g (hi * 2 ^ k)"
    from always [rule_format, of 0] have "g hi" by simp
    then have "fst (f hi s)" using f by (simp add: answers_def)
    with 1(2) have again: "ep f hi (hi * 2) (snd (f hi s)) = Some res"
      by (simp split: prod.splits)
    have "\<forall>k. g (hi * 2 * 2 ^ k)"
    proof
      fix k
      from always [rule_format, of "Suc k"] show "g (hi * 2 * 2 ^ k)" by (simp add: mult.assoc)
    qed
    with 1(1) [OF again] f show False by simp
  qed
qed

lemma exponential_probe_diverges:
  assumes "answers f g" and "\<forall>k. g (hi * 2 ^ k)"
  shows "exponential_probe f lo hi s = None"
proof (cases "exponential_probe f lo hi s")
  case None
  then show ?thesis .
next
  case (Some res)
  from exponential_probe_diverges_aux [OF this, of g] assms show ?thesis by simp
qed

lemma find_integer_returns_iff:
  assumes "answers f g"
  shows "(\<exists>res. find_integer f s = Some res) \<longleftrightarrow>
         (\<not> g 1 \<or> \<not> g 2 \<or> \<not> g 3 \<or> \<not> g 4 \<or> (\<exists>k. \<not> g (5 * 2 ^ k)))"
proof -
  obtain r1 s1 where lin: "linear_scan f [1, 2, 3, 4] s = (r1, s1)"
    by (metis prod.exhaust)
  show ?thesis
  proof (cases r1)
    case (Some r')
    then have "\<exists>res. find_integer f s = Some res" using lin by (simp add: find_integer_def)
    moreover have "\<not> g 1 \<or> \<not> g 2 \<or> \<not> g 3 \<or> \<not> g 4"
      using lin Some assms by (auto simp: answers_def linear_scan_unfold simp del: linear_scan.simps(2) split: if_splits)
    ultimately show ?thesis by blast
  next
    case None
    then have all4: "g 1 \<and> g 2 \<and> g 3 \<and> g 4"
      using lin assms by (auto simp: answers_def linear_scan_unfold simp del: linear_scan.simps(2) split: if_splits)
    show ?thesis
    proof (cases "\<exists>k. \<not> g (5 * 2 ^ k)")
      case True
      then obtain k where "\<forall>s. \<not> fst (f (5 * 2 ^ k) s)" using assms by (auto simp: answers_def)
      from exponential_probe_returns [of f 5 k 4 s1, OF this]
      obtain res where "exponential_probe f 4 5 s1 = Some res" ..
      then have "\<exists>res. find_integer f s = Some res"
        using lin None by (auto simp: find_integer_def split: prod.splits)
      with True show ?thesis by blast
    next
      case False
      then have "exponential_probe f 4 5 s1 = None"
        using assms by (intro exponential_probe_diverges [of f g]) simp_all
      then have "find_integer f s = None" using lin None by (simp add: find_integer_def)
      with all4 False show ?thesis by simp
    qed
  qed
qed

subsection \<open>Termination for a predicate with state\<close>

lemma probe_doubling: "probe (4 + j) = 5 * 2 ^ j"
  by (simp add: probe_def)

lemma state_before_doubling:
  "state_before f s (4 + Suc j) = snd (f (5 * 2 ^ j) (state_before f s (4 + j)))"
proof -
  have "4 + Suc j = Suc (4 + j)" by simp
  then show ?thesis by (simp only: state_before.simps probe_doubling)
qed

lemma scan_all_true:
  assumes "\<forall>k<4. answer f s k"
  shows "linear_scan f [1, 2, 3, 4] s = (None, state_before f s 4)"
proof -
  have "answer f s 0" "answer f s 1" "answer f s 2" "answer f s 3" using assms by simp_all
  then show ?thesis
    by (simp add: answer_def probe_def eval_nat_numeral linear_scan_unfold
          del: linear_scan.simps(2))
qed

lemma scan_some_false:
  assumes "k < 4" and "\<not> answer f s k"
  shows "\<exists>r s'. linear_scan f [1, 2, 3, 4] s = (Some r, s')"
proof -
  from assms(1) have "k = 0 \<or> k = 1 \<or> k = 2 \<or> k = 3" by auto
  with assms(2) have "\<not> answer f s 0 \<or> \<not> answer f s 1 \<or> \<not> answer f s 2 \<or> \<not> answer f s 3"
    by auto
  then show ?thesis
    by (auto simp: answer_def probe_def eval_nat_numeral linear_scan_unfold
          simp del: linear_scan.simps(2))
qed

lemma doubling_returns:
  "\<not> answer f s (4 + j + d) \<Longrightarrow>
   \<exists>res. exponential_probe f lo (5 * 2 ^ j) (state_before f s (4 + j)) = Some res"
proof (induction d arbitrary: j lo)
  case 0
  then have "\<not> fst (f (5 * 2 ^ j) (state_before f s (4 + j)))"
    by (simp add: answer_def probe_doubling)
  then show ?case by (subst exponential_probe_unfold) simp
next
  case (Suc d)
  show ?case
  proof (cases "fst (f (5 * 2 ^ j) (state_before f s (4 + j)))")
    case False
    then show ?thesis by (subst exponential_probe_unfold) simp
  next
    case True
    have "4 + Suc j + d = 4 + j + Suc d" by simp
    with Suc.prems have "\<not> answer f s (4 + Suc j + d)" by metis
    from Suc.IH [OF this, of "5 * 2 ^ j"]
    have "\<exists>res. exponential_probe f (5 * 2 ^ j) (5 * 2 ^ Suc j) (state_before f s (4 + Suc j))
            = Some res" .
    then have "\<exists>res. exponential_probe f (5 * 2 ^ j) (5 * 2 ^ j * 2)
                  (snd (f (5 * 2 ^ j) (state_before f s (4 + j)))) = Some res"
      by (simp only: state_before_doubling power_Suc mult.assoc mult.commute [of 2])
    then show ?thesis using True
      by (subst exponential_probe_unfold) (simp only: if_True)
  qed
qed

lemma doubling_diverges_aux:
  assumes "exponential_probe g lo hi st = Some res"
  shows "\<forall>j. g = f \<and> hi = 5 * 2 ^ j \<and> st = state_before f s (4 + j) \<and>
             (\<forall>k\<ge>4 + j. answer f s k) \<longrightarrow> False"
  using assms
proof (rule exponential_probe.raw_induct [where P = "\<lambda>g lo hi st res.
         \<forall>j. g = f \<and> hi = 5 * 2 ^ j \<and> st = state_before f s (4 + j) \<and>
             (\<forall>k\<ge>4 + j. answer f s k) \<longrightarrow> False", rotated], goal_cases)
  case (1 ep g lo hi st res)
  show ?case
  proof (intro allI impI, elim conjE)
    fix j
    assume g: "g = f" and hi: "hi = 5 * 2 ^ j" and st: "st = state_before f s (4 + j)"
      and always: "\<forall>k\<ge>4 + j. answer f s k"
    from always have "answer f s (4 + j)" by simp
    then have "fst (f hi st)" by (simp add: answer_def probe_doubling hi st)
    with 1(2) have again: "ep g hi (hi * 2) (snd (g hi st)) = Some res"
      by (simp add: g split: prod.splits)
    have "snd (g hi st) = state_before f s (4 + Suc j)"
      by (simp only: state_before_doubling g hi st)
    moreover have "hi * 2 = 5 * 2 ^ Suc j" by (simp add: hi)
    moreover have "\<forall>k\<ge>4 + Suc j. answer f s k" using always by simp
    ultimately show False using 1(1) [OF again] g by blast
  qed
qed

lemma doubling_diverges:
  assumes "\<forall>k\<ge>4. answer f s k"
  shows "exponential_probe f lo 5 (state_before f s 4) = None"
proof (cases "exponential_probe f lo 5 (state_before f s 4)")
  case None
  then show ?thesis .
next
  case (Some res)
  from doubling_diverges_aux [OF this, of f s] assms have False
    by (auto dest!: spec [of _ 0])
  then show ?thesis ..
qed

subsection \<open>The claims about \<open>find_integer\<close>\<close>

text \<open>
  Claim C1. For every natural number \<open>n\<close>, \<open>find_integer\<close> on the predicate
  \<open>f(i) = (i \<le> n)\<close> returns exactly \<open>n\<close>, and no call of \<open>f\<close> in that run has the
  argument 0: \<open>calls\<close> is the list of arguments \<open>f\<close> was evaluated at.
\<close>

theorem find_integer_boundary:
  "\<exists>calls. find_integer (logged (pure_pred (\<lambda>i. i \<le> int n))) ((), []) = Some (int n, (), calls)
           \<and> 0 \<notin> set calls"
proof -
  let ?g = "\<lambda>i. i \<le> int n"
  let ?f = "logged (pure_pred ?g) :: int \<Rightarrow> unit \<times> int list \<Rightarrow> bool \<times> unit \<times> int list"
  have f: "answers ?f ?g" by (intro answers_logged answers_pure_pred)
  have "n < 2 ^ n" by (rule less_exp)
  then have "int n < int (2 ^ n)" by (simp only: of_nat_less_iff)
  then have "int n < 2 ^ n" by simp
  moreover have "(2 :: int) ^ n \<le> 5 * 2 ^ n" by simp
  ultimately have "\<not> ?g (5 * 2 ^ n)" by linarith
  then have "\<exists>k. \<not> ?g (5 * 2 ^ k)" ..
  with find_integer_returns_iff [OF f, of "((), [])"]
  obtain r calls where run: "find_integer ?f ((), []) = Some (r, (), calls)" by auto
  from find_integer_result [OF run f] have "r = int n" by auto
  moreover from find_integer_calls [OF run] have "0 \<notin> set calls" by auto
  ultimately show ?thesis using run by simp
qed

text \<open>
  Claim C5 says that \<open>find_integer\<close> returns for every predicate. It does not: on the
  predicate that is true everywhere the doubling loop \<^verbatim>\<open>while f(hi)\<close> never ends.
\<close>

theorem find_integer_always_true_diverges: "find_integer always_true () = None"
proof -
  have "answers (always_true :: int \<Rightarrow> unit \<Rightarrow> bool \<times> unit) (\<lambda>i. True)"
    by (simp add: answers_def always_true_def)
  from find_integer_returns_iff [OF this, of "()"] show ?thesis
    by (cases "find_integer always_true ()") auto
qed

lemma find_integer_returns_pure:
  "(\<exists>r s'. find_integer (pure_pred g) s = Some (r, s')) \<longleftrightarrow>
     (\<not> g 1 \<or> \<not> g 2 \<or> \<not> g 3 \<or> \<not> g 4 \<or> (\<exists>k. \<not> g (5 * 2 ^ k)))"
  using find_integer_returns_iff [OF answers_pure_pred, of g s] by simp

text \<open>
  Claim C5, amended. For every predicate \<open>f\<close>, with or without side effects and
  monotonic or not, and every state \<open>s\<close> it starts in: \<open>find_integer\<close> returns an integer
  exactly when \<open>f\<close> answers false to one of the calls \<open>f(1)\<close>, \<open>f(2)\<close>, \<open>f(3)\<close>, \<open>f(4)\<close>,
  \<open>f(5)\<close>, \<open>f(10)\<close>, \<open>f(20)\<close>, ... that \<open>find_integer\<close> makes in this order as long as the
  answers are true. (For a predicate without side effects this is: \<open>f\<close> is false at one of
  1, 2, 3, 4 or at some \<open>5 * 2 ^ k\<close>, which is \<open>find_integer_returns_pure\<close>.)
\<close>

theorem find_integer_returns:
  "(\<exists>r s'. find_integer f s = Some (r, s')) \<longleftrightarrow> (\<exists>k. \<not> answer f s k)"
proof (cases "\<forall>k<4. answer f s k")
  case False
  then obtain k where "k < 4" "\<not> answer f s k" by blast
  from scan_some_false [OF this] obtain r s' where "linear_scan f [1, 2, 3, 4] s = (Some r, s')"
    by blast
  then have "find_integer f s = Some (r, s')" by (simp add: find_integer_def)
  with \<open>\<not> answer f s k\<close> show ?thesis by blast
next
  case True
  from scan_all_true [OF this]
  have lin: "linear_scan f [1, 2, 3, 4] s = (None, state_before f s 4)" .
  show ?thesis
  proof (cases "\<exists>k. \<not> answer f s k")
    case ex: True
    then obtain k where k: "\<not> answer f s k" ..
    with True have "4 \<le> k" by (metis not_le)
    then have "k = 4 + 0 + (k - 4)" by simp
    with k have "\<not> answer f s (4 + 0 + (k - 4))" by simp
    from doubling_returns [OF this, of 4]
    obtain res where "exponential_probe f 4 5 (state_before f s 4) = Some res" by auto
    then have "\<exists>r s'. find_integer f s = Some (r, s')"
      using lin by (cases res) (auto simp: find_integer_def split: prod.splits)
    with ex show ?thesis by blast
  next
    case nex: False
    then have "exponential_probe f 4 5 (state_before f s 4) = None"
      by (intro doubling_diverges) simp
    then have "find_integer f s = None" using lin by (simp add: find_integer_def)
    with nex show ?thesis by simp
  qed
qed

theorem find_integer_returns_witness:
  "\<not> answer tiring 0 5 \<and> find_integer tiring 0 = Some (5, 8)"
proof -
  have no: "\<not> answer tiring 0 5"
    by (simp add: answer_def tiring_def eval_nat_numeral)
  have run: "find_integer tiring 0 = Some (5, 8)" by code_simp
  from find_integer_returns [of tiring 0] no run show ?thesis by simp
qed

text \<open>
  Claim C6. In a call of \<open>find_integer\<close> that returns, no argument is passed to the
  predicate twice, whatever the predicate answers and whatever state it keeps: the list
  of the arguments of its calls has no repetition.
\<close>

theorem find_integer_probes_once:
  "find_integer (logged f) (s, []) = Some (r, (s', calls)) \<Longrightarrow> distinct calls"
  using find_integer_calls [of f s r s' calls] by simp

theorem find_integer_probes_once_witness:
  "find_integer (logged (pure_pred not_monotonic)) ((), [])
     = Some (20, (), [1, 2, 3, 4, 5, 10, 20, 40, 30, 25, 22, 21]) \<and>
   distinct [1, 2, 3, 4, 5, 10, 20, 40, 30, 25, 22, 21 :: int]"
proof -
  have run: "find_integer (logged (pure_pred not_monotonic)) ((), [])
     = Some (20, (), [1, 2, 3, 4, 5, 10, 20, 40, 30, 25, 22, 21])"
    by code_simp
  from find_integer_probes_once [OF run] run show ?thesis by simp
qed

section \<open>Properties of the shrinker driver\<close>

subsection \<open>One call\<close>

lemma incorporate_accepts:
  assumes "incorporate H v s = Inr (True, s')"
  obtains w1 w2 w3 where
    "check_invariants H (make_immutable H v) (world s) = Inr w1"
    "left_is_better H (make_immutable H v) (current s) w1 = (True, w2)"
    "make_immutable H v \<notin> seen s"
    "predicate H (make_immutable H v) w2 = (True, w3)"
    "s' = s\<lparr>seen := insert (make_immutable H v) (seen s), world := w3,
            changes := changes s + 1, current := make_immutable H v\<rparr>"
  using assms
  by (auto simp: incorporate_def Let_def split: sum.splits prod.splits if_splits)

lemma incorporate_rejects:
  assumes "incorporate H v s = Inr (False, s')"
  shows "current s' = current s \<and> changes s' = changes s \<and> full s' = full s \<and>
         random_source s' = random_source s \<and> seen s \<subseteq> seen s'"
  using assms
  by (auto simp: incorporate_def Let_def split: sum.splits prod.splits if_splits)

lemma incorporate_idem:
  "make_immutable H (make_immutable H v) = make_immutable H v \<Longrightarrow>
   incorporate H (make_immutable H v) s = incorporate H v s"
  by (simp add: incorporate_def)

lemma consider_cases:
  assumes "consider' H v s = Inr (b, s')"
  shows "(b \<and> s' = s) \<or> incorporate H (make_immutable H v) s = Inr (b, s')"
  using assms by (auto simp: consider'_def Let_def split: if_splits)


lemma predicate_calls_append:
  "predicate_calls (xs @ ys) = predicate_calls xs @ predicate_calls ys"
  by (induction xs rule: predicate_calls.induct) simp_all

lemma make_immutable_recording [simp]: "make_immutable (recording H) = make_immutable H"
  by (simp add: recording_def)

subsection \<open>Invariants of a session\<close>

lemma do_calls_invariant:
  assumes step: "\<And>c s b s'. I s \<Longrightarrow> do_call H c s = Inr (b, s') \<Longrightarrow> I s'"
  shows "I s \<Longrightarrow> do_calls H cs s = Inr s' \<Longrightarrow> I s'"
proof (induction cs arbitrary: s)
  case Nil
  then show ?case by simp
next
  case (Cons c cs)
  from Cons.prems(2) obtain b s1 where c: "do_call H c s = Inr (b, s1)"
    and rest: "do_calls H cs s1 = Inr s'"
    by (auto split: sum.splits)
  from step [OF Cons.prems(1) c] have "I s1" .
  from Cons.IH [OF this rest] show ?case .
qed

lemma only_calls_invariant:
  assumes step: "\<And>c s b s'. I s \<Longrightarrow> do_call H c s = Inr (b, s') \<Longrightarrow> I s'"
    and "only_calls H f" and "I s" and "f s = Inr s'"
  shows "I s'"
proof -
  from assms(2) obtain cs where "f s = do_calls H cs s" unfolding only_calls_def by blast
  with assms(4) have "do_calls H cs s = Inr s'" by simp
  from do_calls_invariant [of I H, OF step assms(3) this] show ?thesis .
qed

lemma run_loop_invariant_aux:
  assumes "run_loop P prev s = Some res"
  shows "(\<forall>a b. I a \<longrightarrow> run_step P a = Inr b \<longrightarrow> I b) \<longrightarrow> I s \<longrightarrow> (\<forall>t. res = Inr t \<longrightarrow> I t)"
  using assms
proof (rule run_loop.raw_induct [where P = "\<lambda>P prev s res.
         (\<forall>a b. I a \<longrightarrow> run_step P a = Inr b \<longrightarrow> I b) \<longrightarrow> I s \<longrightarrow> (\<forall>t. res = Inr t \<longrightarrow> I t)",
       rotated], goal_cases)
  case (1 loop P prev s res)
  show ?case
  proof (intro impI allI)
    fix t
    assume step: "\<forall>a b. I a \<longrightarrow> run_step P a = Inr b \<longrightarrow> I b" and s: "I s" and res: "res = Inr t"
    show "I t"
    proof (cases "int (changes s) \<noteq> prev")
      case False
      with 1(2) res s show ?thesis by simp
    next
      case True
      with 1(2) res obtain s1 where s1: "run_step P s = Inr s1"
        and again: "loop P (int (changes s)) s1 = Some res"
        by (auto split: sum.splits)
      from step s s1 have "I s1" by blast
      with 1(1) [OF again] step res show ?thesis by blast
    qed
  qed
qed

lemma test_only_calls_invariant:
  assumes step: "\<And>c s b s'. I s \<Longrightarrow> do_call H c s = Inr (b, s') \<Longrightarrow> I s'"
    and "test_only_calls H f" and "I s" and "f s = Inr (b, s')"
  shows "I s'"
proof -
  from assms(4) have "object_after (f s) = Inr s'" by (simp add: object_after_def)
  from only_calls_invariant [of I H "\<lambda>s. object_after (f s)", OF step _ assms(3) this] assms(2)
  show ?thesis by (simp add: test_only_calls_def)
qed

lemma run_invariant:
  assumes test: "\<And>a b c. I a \<Longrightarrow> short_circuit P a = Inr (c, b) \<Longrightarrow> I b"
    and pre: "\<And>a b. I a \<Longrightarrow> preamble P a = Inr b \<Longrightarrow> I b"
    and step: "\<And>a b. I a \<Longrightarrow> run_step P a = Inr b \<Longrightarrow> I b"
    and "I s" and "run P s = Some (Inr t)"
  shows "I t"
proof -
  from assms(5) obtain stop s0 where s0: "short_circuit P s = Inr (stop, s0)"
    by (cases "short_circuit P s") (auto simp: run_def)
  from test [OF assms(4) s0] have I0: "I s0" .
  show ?thesis
  proof (cases stop)
    case True
    with assms(5) s0 I0 show ?thesis by (simp add: run_def)
  next
    case False
    with assms(5) s0 obtain s1 where s1: "preamble P s0 = Inr s1"
      and rest: "(if full s1 then run_loop P (- 1) s1 else Some (run_step P s1)) = Some (Inr t)"
      by (auto simp: run_def split: sum.splits)
    from pre [OF I0 s1] have I1: "I s1" .
    show ?thesis
    proof (cases "full s1")
      case True
      with rest have "run_loop P (- 1) s1 = Some (Inr t)" by simp
      from run_loop_invariant_aux [OF this, of I] step I1 show ?thesis by blast
    next
      case False
      with rest have "run_step P s1 = Inr t" by simp
      from step [OF I1 this] show ?thesis .
    qed
  qed
qed

lemma do_call_step:
  assumes "do_call H c s = Inr (b, s')"
  shows "changes s \<le> changes s' \<and>
         (current s' = current s \<or> (\<exists>w. fst (left_is_better H (current s') (current s) w)))"
proof -
  have inc: "changes s \<le> changes s' \<and>
         (current s' = current s \<or> (\<exists>w. fst (left_is_better H (current s') (current s) w)))"
    if "incorporate H v s = Inr (b, s')" for v
  proof (cases b)
    case True
    with that have "incorporate H v s = Inr (True, s')" by simp
    then obtain w1 w2 w3 where
      "left_is_better H (make_immutable H v) (current s) w1 = (True, w2)"
      "s' = s\<lparr>seen := insert (make_immutable H v) (seen s), world := w3,
              changes := changes s + 1, current := make_immutable H v\<rparr>"
      by (rule incorporate_accepts)
    then have "fst (left_is_better H (current s') (current s) w1)" "changes s \<le> changes s'"
      by simp_all
    then show ?thesis by blast
  next
    case False
    with that have "incorporate H v s = Inr (False, s')" by simp
    from incorporate_rejects [OF this] show ?thesis by simp
  qed
  show ?thesis
  proof (cases c)
    case (Consider v)
    with assms have "consider' H v s = Inr (b, s')" by simp
    from consider_cases [OF this] inc show ?thesis by auto
  next
    case (Incorporate v)
    with assms inc show ?thesis by simp
  qed
qed




lemma seen_covers_predicate_calls:
  assumes "do_call (recording H) c s = Inr (b, s')"
    and "distinct (predicate_calls (snd (world s)))"
    and "set (predicate_calls (snd (world s))) \<subseteq> seen s"
  shows "distinct (predicate_calls (snd (world s'))) \<and>
         set (predicate_calls (snd (world s'))) \<subseteq> seen s'"
proof -
  have inc: "distinct (predicate_calls (snd (world s'))) \<and>
         set (predicate_calls (snd (world s'))) \<subseteq> seen s'"
    if "incorporate (recording H) v s = Inr (b, s')" for v
    using that assms(2,3)
    by (auto simp: incorporate_def recording_def Let_def predicate_calls_append
          split: sum.splits prod.splits if_splits)
  show ?thesis
  proof (cases c)
    case (Consider v)
    with assms(1) have "consider' (recording H) v s = Inr (b, s')" by simp
    from consider_cases [OF this] inc assms(2,3) show ?thesis by auto
  next
    case (Incorporate v)
    with assms(1) inc show ?thesis by simp
  qed
qed

subsection \<open>The claims about \<open>incorporate\<close> and \<open>consider\<close>\<close>

text \<open>
  Claim C2. Let \<open>v\<close> be the canonical form of the argument, and let the invariant check
  pass on it (the base class's always does). \<open>better\<close> is what \<^verbatim>\<open>left_is_better\<close>
  answers for \<open>v\<close> against the current value, \<open>ok\<close> what the predicate answers for \<open>v\<close>.
  Then \<^verbatim>\<open>incorporate\<close> returns acceptance exactly when \<open>better\<close> holds, \<open>v\<close> is not in
  the seen-set and \<open>ok\<close> holds; on acceptance \<open>v\<close> is the new current value and the
  counter has grown by one, and on rejection both are as before.
\<close>

theorem incorporate_commits_iff:
  assumes "check_invariants H (make_immutable H v) (world s) = Inr w1"
    and "left_is_better H (make_immutable H v) (current s) w1 = (better, w2)"
    and "predicate H (make_immutable H v) w2 = (ok, w3)"
  shows "\<exists>s'. incorporate H v s = Inr (better \<and> make_immutable H v \<notin> seen s \<and> ok, s') \<and>
           (if better \<and> make_immutable H v \<notin> seen s \<and> ok
            then current s' = make_immutable H v \<and> changes s' = changes s + 1
            else current s' = current s \<and> changes s' = changes s)"
  using assms
  by (cases better; cases ok; cases "make_immutable H v \<in> seen s")
     (simp_all add: incorporate_def Let_def)

theorem incorporate_commits_iff_witness:
  "\<exists>s'. incorporate toy_hooks (- 6) (init toy_hooks 7 () False 0) = Inr (True, s') \<and>
        current s' = 6 \<and> changes s' = 1"
  using incorporate_commits_iff
    [of toy_hooks "- 6" "init toy_hooks 7 () False 0" 1 True 2 True 3]
  by (simp add: toy_hooks_def init_def)

text \<open>
  Claim C8. When the canonical form of the argument equals the current value,
  \<^verbatim>\<open>consider\<close> returns acceptance and leaves the object and the world as they were,
  whatever the callbacks are: none of them has run. The third part says so for the
  recorded callbacks, whose list of invocations is part of the world. When the canonical
  form differs from the current value, \<^verbatim>\<open>consider\<close> is \<^verbatim>\<open>incorporate\<close>, given that
  canonicalizing a canonical value changes nothing (\<^verbatim>\<open>consider\<close> passes the canonical
  form on, and \<^verbatim>\<open>incorporate\<close> canonicalizes again).
\<close>

theorem consider_shortcut:
  "(make_immutable H v = current s \<longrightarrow> consider' H v s = Inr (True, s)) \<and>
   (make_immutable H v \<noteq> current s \<and>
      make_immutable H (make_immutable H v) = make_immutable H v \<longrightarrow>
      consider' H v s = incorporate H v s) \<and>
   (make_immutable H v = current t \<longrightarrow> consider' (recording H) v t = Inr (True, t))"
  by (simp add: consider'_def incorporate_idem)

theorem consider_shortcut_witness:
  "consider' toy_hooks (- 7) (init toy_hooks 7 () False 0)
     = Inr (True, init toy_hooks 7 () False 0) \<and>
   consider' toy_hooks (- 6) (init toy_hooks 7 () False 0)
     = incorporate toy_hooks (- 6) (init toy_hooks 7 () False 0) \<and>
   consider' (recording toy_hooks) (- 7) (init (recording toy_hooks) 7 () False (0, []))
     = Inr (True, init (recording toy_hooks) 7 () False (0, []))"
proof -
  let ?s = "init toy_hooks 7 () False 0"
  let ?t = "init (recording toy_hooks) 7 () False (0, [])"
  have same: "make_immutable toy_hooks (- 7) = current ?s"
    "make_immutable toy_hooks (- 7) = current ?t"
    by (simp_all add: toy_hooks_def init_def)
  have other: "make_immutable toy_hooks (- 6) \<noteq> current ?s \<and>
      make_immutable toy_hooks (make_immutable toy_hooks (- 6)) = make_immutable toy_hooks (- 6)"
    by (simp add: toy_hooks_def init_def)
  from consider_shortcut [of toy_hooks "- 7" ?s ?t] same
  have "consider' toy_hooks (- 7) ?s = Inr (True, ?s)"
    "consider' (recording toy_hooks) (- 7) ?t = Inr (True, ?t)"
    by blast+
  moreover from consider_shortcut [of toy_hooks "- 6" ?s ?t] other
  have "consider' toy_hooks (- 6) ?s = incorporate toy_hooks (- 6) ?s"
    by blast
  ultimately show ?thesis by simp
qed

subsection \<open>The claims about a session\<close>

text \<open>
  Claim C7. In a session of \<^verbatim>\<open>consider\<close> and \<^verbatim>\<open>incorporate\<close> calls, in any order and
  with any arguments, on a freshly constructed shrinker, the acceptance predicate is
  called at most once on each canonical value: the values of its recorded invocations
  are pairwise distinct.
\<close>

theorem predicate_at_most_once:
  fixes H :: "('v, 'w) hooks" and rnd :: 'r
  shows "do_calls (recording H) cs (init (recording H) initial rnd full_mode (w, [])) = Inr s \<Longrightarrow>
   distinct (predicate_calls (snd (world s)))"
proof -
  let ?I = "\<lambda>s :: ('v, 'r, 'w \<times> 'v event list) shrinker.
    distinct (predicate_calls (snd (world s))) \<and> set (predicate_calls (snd (world s))) \<subseteq> seen s"
  assume run: "do_calls (recording H) cs (init (recording H) initial rnd full_mode (w, [])) = Inr s"
  have start: "?I (init (recording H) initial rnd full_mode (w, []))"
    by (simp add: init_def)
  have "?I s"
    by (rule do_calls_invariant [of ?I "recording H", OF _ start run])
       (use seen_covers_predicate_calls in blast)
  then show ?thesis by simp
qed

theorem predicate_at_most_once_witness:
  "do_calls (recording toy_hooks)
     [Incorporate 6, Consider 6, Incorporate 4, Consider 4, Incorporate (- 4), Consider 5]
     (init (recording toy_hooks) 7 () False (0, []))
   = Inr \<lparr>current = 5, random_source = (), full = False, changes = 2, seen = {5, 4, 6},
          world = (13, [CheckInvariants 6, LeftIsBetter 6 7, Predicate 6,
                        CheckInvariants 4, LeftIsBetter 4 6, Predicate 4,
                        CheckInvariants 4, LeftIsBetter 4 6,
                        CheckInvariants 4, LeftIsBetter 4 6,
                        CheckInvariants 5, LeftIsBetter 5 6, Predicate 5])\<rparr> \<and>
   distinct [6, 4, 5 :: int]"
proof -
  have run: "do_calls (recording toy_hooks)
     [Incorporate 6, Consider 6, Incorporate 4, Consider 4, Incorporate (- 4), Consider 5]
     (init (recording toy_hooks) 7 () False (0, []))
   = Inr \<lparr>current = 5, random_source = (), full = False, changes = 2, seen = {5, 4, 6},
          world = (13, [CheckInvariants 6, LeftIsBetter 6 7, Predicate 6,
                        CheckInvariants 4, LeftIsBetter 4 6, Predicate 4,
                        CheckInvariants 4, LeftIsBetter 4 6,
                        CheckInvariants 4, LeftIsBetter 4 6,
                        CheckInvariants 5, LeftIsBetter 5 6, Predicate 5])\<rparr>"
    by (simp add: init_def recording_def toy_hooks_def incorporate_def consider'_def)
  from predicate_at_most_once [OF run] run show ?thesis by simp
qed

lemma only_calls_toy:
  "test_only_calls H (short_circuit (toy_passes H))"
  "only_calls H (preamble (toy_passes H))"
  "only_calls H (run_step (toy_passes H))"
proof -
  have "\<exists>cs. object_after (consider' H 0 s) = do_calls H cs s"
    for s :: "(int, unit, nat) shrinker"
    by (rule exI [of _ "[Consider 0]"]) (simp add: object_after_def split: sum.splits)
  then show "test_only_calls H (short_circuit (toy_passes H))"
    by (simp add: test_only_calls_def only_calls_def toy_passes_def)
  show "only_calls H (preamble (toy_passes H))" "only_calls H (run_step (toy_passes H))"
    by (simp_all add: only_calls_def toy_passes_def del: do_calls.simps) blast+
qed

lemma run_toy:
  "run (toy_passes toy_hooks) (init toy_hooks 7 () True 0)
     = Some (Inr \<lparr>current = 5, random_source = (), full = True, changes = 2,
                  seen = {4, 5, 6, 0}, world = 14\<rparr>)"
  by code_simp

text \<open>
  Claim C4. Across one \<^verbatim>\<open>consider\<close> or \<^verbatim>\<open>incorporate\<close> call \<^verbatim>\<open>changes\<close> does not
  decrease, and \<^verbatim>\<open>current\<close> stays or is replaced by a value for which
  \<^verbatim>\<open>left_is_better\<close> answered true against it; across a sequence of calls \<^verbatim>\<open>changes\<close>
  does not decrease. Let \<^verbatim>\<open>left_is_better\<close> decide a transitive relation \<open>R\<close> (the
  specification calls it an order) and let \<^verbatim>\<open>short_circuit\<close>, \<^verbatim>\<open>preamble\<close> and
  \<^verbatim>\<open>run_step\<close> act on the object through these calls only (a \<^verbatim>\<open>short_circuit\<close> that
  only tests makes none): then \<^verbatim>\<open>current\<close> after \<^verbatim>\<open>run\<close> is the canonical seed or is
  \<open>R\<close>-better than it.
\<close>

theorem current_only_improves:
  fixes H :: "('v, 'w) hooks" and P :: "('v, 'r, 'w) passes" and s :: "('v, 'r, 'w) shrinker"
  assumes "\<And>l r w. fst (left_is_better H l r w) \<Longrightarrow> R l r"
    and "transp R"
    and "test_only_calls H (short_circuit P)"
    and "only_calls H (preamble P)"
    and "only_calls H (run_step P)"
  shows "(do_call H c s = Inr (b, s') \<longrightarrow>
            changes s \<le> changes s' \<and>
            (current s' = current s \<or> (\<exists>w. fst (left_is_better H (current s') (current s) w)))) \<and>
         (do_calls H cs s = Inr s'' \<longrightarrow> changes s \<le> changes s'') \<and>
         (run P (init H initial rnd full_mode w0) = Some (Inr t) \<longrightarrow>
            current t = make_immutable H initial \<or> R (current t) (make_immutable H initial))"
proof -
  have one: "changes s \<le> changes s' \<and>
        (current s' = current s \<or> (\<exists>w. fst (left_is_better H (current s') (current s) w)))"
    if "do_call H c s = Inr (b, s')"
    using do_call_step [OF that] .
  have many: "changes s \<le> changes s''" if calls: "do_calls H cs s = Inr s''"
  proof -
  let ?I = "\<lambda>a :: ('v, 'r, 'w) shrinker. changes s \<le> changes a"
  have "?I s''"
    by (rule do_calls_invariant [of ?I H, OF _ _ calls]) (use do_call_step in fastforce)+
    then show ?thesis .
  qed
  have after_run: "current t = make_immutable H initial \<or> R (current t) (make_immutable H initial)"
    if run: "run P (init H initial rnd full_mode w0) = Some (Inr t)"
  proof -
  let ?I = "\<lambda>a :: ('v, 'r, 'w) shrinker.
    current a = make_immutable H initial \<or> R (current a) (make_immutable H initial)"
  have call: "?I a'" if "?I a" "do_call H c' a = Inr (b', a')" for c' a b' a'
  proof -
    from do_call_step [OF that(2)] assms(1)
    have "current a' = current a \<or> R (current a') (current a)" by blast
    with that(1) assms(2) show ?thesis by (auto dest: transpD)
  qed
  have test: "?I a'" if "?I a" "short_circuit P a = Inr (stop, a')" for a a' stop
    by (rule test_only_calls_invariant [of ?I H, OF call assms(3) that]) assumption+
  have pre: "?I a'" if "?I a" "preamble P a = Inr a'" for a a'
    by (rule only_calls_invariant [of ?I H, OF call assms(4) that]) assumption+
  have step: "?I a'" if "?I a" "run_step P a = Inr a'" for a a'
    by (rule only_calls_invariant [of ?I H, OF call assms(5) that]) assumption+
  have "?I (init H initial rnd full_mode w0)" by (simp add: init_def)
  from run_invariant [of ?I P, OF test pre step this run] show ?thesis .
  qed
  from one many after_run show ?thesis by blast
qed


theorem current_only_improves_witness:
  "do_call toy_hooks (Incorporate (- 6)) (init toy_hooks 7 () True 0)
     = Inr (True, \<lparr>current = 6, random_source = (), full = True, changes = 1,
                   seen = {6}, world = 3\<rparr>) \<and>
   do_calls toy_hooks [Incorporate (- 6), Consider 3] (init toy_hooks 7 () True 0)
     = Inr \<lparr>current = 6, random_source = (), full = True, changes = 1,
            seen = {3, 6}, world = 6\<rparr> \<and>
   run (toy_passes toy_hooks) (init toy_hooks 7 () True 0)
     = Some (Inr \<lparr>current = 5, random_source = (), full = True, changes = 2,
                  seen = {4, 5, 6, 0}, world = 14\<rparr>) \<and>
   (5 :: int) < make_immutable toy_hooks 7"
proof -
  let ?s0 = "init toy_hooks 7 () True 0"
  let ?s1 = "\<lparr>current = 6 :: int, random_source = (), full = True, changes = 1,
              seen = {6}, world = 3 :: nat\<rparr>"
  let ?s2 = "\<lparr>current = 6 :: int, random_source = (), full = True, changes = 1,
              seen = {3, 6}, world = 6 :: nat\<rparr>"
  let ?t = "\<lparr>current = 5 :: int, random_source = (), full = True, changes = 2,
             seen = {4, 5, 6, 0}, world = 14 :: nat\<rparr>"
  have better: "\<And>l r w. fst (left_is_better toy_hooks l r w) \<Longrightarrow> l < r"
    by (simp add: toy_hooks_def)
  have trans: "transp ((<) :: int \<Rightarrow> int \<Rightarrow> bool)" by (rule transpI) simp
  have one: "do_call toy_hooks (Incorporate (- 6)) ?s0 = Inr (True, ?s1)"
    by (simp add: init_def toy_hooks_def incorporate_def)
  have many: "do_calls toy_hooks [Incorporate (- 6), Consider 3] ?s0 = Inr ?s2"
    by (simp add: init_def toy_hooks_def incorporate_def consider'_def insert_commute)
  note run_toy
  with current_only_improves
    [where H = toy_hooks and R = "(<)" and P = "toy_passes toy_hooks"
       and c = "Incorporate (- 6)" and s = ?s0 and b = True and s' = ?s1
       and cs = "[Incorporate (- 6), Consider 3]" and s'' = ?s2
       and initial = 7 and rnd = "()" and full_mode = True and ?w0.0 = 0 and t = ?t,
     OF better trans only_calls_toy]
    one many
  show ?thesis by (simp add: toy_hooks_def)
qed

subsection \<open>A predicate that rejects everything\<close>







subsection \<open>The full-mode loop\<close>

lemma run_steps_Suc_end:
  "run_steps ps (Suc n) s =
     (case run_steps ps n s of Inl e \<Rightarrow> Inl e | Inr u \<Rightarrow> run_step ps u)"
proof (induction n arbitrary: s)
  case 0
  show ?case by (simp split: sum.splits)
next
  case (Suc n)
  show ?case
  proof (cases "run_step ps s")
    case (Inl e)
    then show ?thesis by simp
  next
    case (Inr s1)
    have "run_steps ps (Suc (Suc n)) s = run_steps ps (Suc n) s1" using Inr by simp
    also have "\<dots> = (case run_steps ps n s1 of Inl e \<Rightarrow> Inl e | Inr u \<Rightarrow> run_step ps u)"
      by (rule Suc.IH)
    also have "run_steps ps n s1 = run_steps ps (Suc n) s" using Inr by simp
    finally show ?thesis .
  qed
qed

lemma unchanged_pass_0:
  "unchanged_pass ps s 0 \<longleftrightarrow> (\<exists>b. run_step ps s = Inr b \<and> changes b = changes s)"
  by (auto simp: unchanged_pass_def split: sum.splits)

lemma unchanged_pass_Suc:
  "run_step ps s = Inr s1 \<Longrightarrow> unchanged_pass ps s (Suc k) = unchanged_pass ps s1 k"
  by (simp add: unchanged_pass_def)

lemma stops_at_step:
  assumes "run_step ps s = Inr s1"
  shows "stops_at ps s t \<longleftrightarrow>
         (if changes s1 = changes s then t = s1 else stops_at ps s1 t)"
proof (cases "changes s1 = changes s")
  case True
  then have u0: "unchanged_pass ps s 0" using assms by (simp add: unchanged_pass_0)
  have "stops_at ps s t \<longleftrightarrow> t = s1"
  proof
    assume "stops_at ps s t"
    then obtain n where n: "run_steps ps (Suc n) s = Inr t" "\<forall>k<n. \<not> unchanged_pass ps s k"
      unfolding stops_at_def by blast
    from n(2) u0 have "n = 0" by (cases n) auto
    with n(1) assms show "t = s1" by simp
  next
    assume "t = s1"
    with assms u0 have "run_steps ps (Suc 0) s = Inr t \<and> unchanged_pass ps s 0 \<and>
          (\<forall>k<0. \<not> unchanged_pass ps s k)" by simp
    then show "stops_at ps s t" unfolding stops_at_def by blast
  qed
  with True show ?thesis by simp
next
  case False
  then have u0: "\<not> unchanged_pass ps s 0" using assms by (simp add: unchanged_pass_0)
  have "stops_at ps s t \<longleftrightarrow> stops_at ps s1 t"
  proof
    assume "stops_at ps s t"
    then obtain n where n: "run_steps ps (Suc n) s = Inr t" "unchanged_pass ps s n"
      "\<forall>k<n. \<not> unchanged_pass ps s k"
      unfolding stops_at_def by blast
    from n(2) u0 obtain m where m: "n = Suc m" by (cases n) auto
    have "run_steps ps (Suc m) s1 = Inr t" using n(1) assms m by simp
    moreover have "unchanged_pass ps s1 m" using n(2) m unchanged_pass_Suc [OF assms] by simp
    moreover have "\<forall>k<m. \<not> unchanged_pass ps s1 k"
    proof (intro allI impI)
      fix k assume "k < m"
      then have "\<not> unchanged_pass ps s (Suc k)" using n(3) m by simp
      then show "\<not> unchanged_pass ps s1 k" using unchanged_pass_Suc [OF assms] by simp
    qed
    ultimately show "stops_at ps s1 t" unfolding stops_at_def by blast
  next
    assume "stops_at ps s1 t"
    then obtain m where m: "run_steps ps (Suc m) s1 = Inr t" "unchanged_pass ps s1 m"
      "\<forall>k<m. \<not> unchanged_pass ps s1 k"
      unfolding stops_at_def by blast
    have "run_steps ps (Suc (Suc m)) s = Inr t" using m(1) assms by simp
    moreover have "unchanged_pass ps s (Suc m)" using m(2) unchanged_pass_Suc [OF assms] by simp
    moreover have "\<forall>k<Suc m. \<not> unchanged_pass ps s k"
    proof (intro allI impI)
      fix k assume k: "k < Suc m"
      show "\<not> unchanged_pass ps s k"
      proof (cases k)
        case 0
        with u0 show ?thesis by simp
      next
        case (Suc j)
        with k m(3) have "\<not> unchanged_pass ps s1 j" by simp
        with Suc show ?thesis using unchanged_pass_Suc [OF assms] by simp
      qed
    qed
    ultimately show "stops_at ps s t" unfolding stops_at_def by blast
  qed
  with False show ?thesis by simp
qed

lemma stops_at_raise:
  assumes "run_step ps s = Inl e"
  shows "\<not> stops_at ps s t"
  using assms by (simp add: stops_at_def)


lemma run_loop_stops_aux:
  assumes "run_loop ps prev s = Some res"
  shows "\<forall>t. res = Inr t \<longrightarrow> (if int (changes s) = prev then t = s else stops_at ps s t)"
  using assms
proof (rule run_loop.raw_induct [where P = "\<lambda>ps prev s res.
         \<forall>t. res = Inr t \<longrightarrow> (if int (changes s) = prev then t = s else stops_at ps s t)",
       rotated], goal_cases)
  case (1 loop ps prev s res)
  show ?case
  proof (intro allI impI)
    fix t assume res: "res = Inr t"
    show "if int (changes s) = prev then t = s else stops_at ps s t"
    proof (cases "int (changes s) = prev")
      case True
      with 1(2) res show ?thesis by simp
    next
      case False
      with 1(2) res obtain s1 where s1: "run_step ps s = Inr s1"
        and again: "loop ps (int (changes s)) s1 = Some res"
        by (auto split: sum.splits)
      from 1(1) [OF again] res
      have "if changes s1 = changes s then t = s1 else stops_at ps s1 t" by simp
      with stops_at_step [OF s1, of t] False show ?thesis by simp
    qed
  qed
qed

lemma run_loop_returns:
  "run_steps ps (Suc n) s = Inr t \<Longrightarrow> unchanged_pass ps s n \<Longrightarrow>
   \<forall>k<n. \<not> unchanged_pass ps s k \<Longrightarrow> int (changes s) \<noteq> prev \<Longrightarrow>
   run_loop ps prev s = Some (Inr t)"
proof (induction n arbitrary: s prev)
  case 0
  from "0.prems"(1) have step: "run_step ps s = Inr t" by (simp split: sum.splits)
  with "0.prems"(2) have same: "changes t = changes s" by (simp add: unchanged_pass_0)
  have "run_loop ps (int (changes s)) t = Some (Inr t)"
    using same by (subst run_loop.simps) simp
  then show ?case using step "0.prems"(4) by (subst run_loop.simps) simp
next
  case (Suc n)
  from Suc.prems(1) obtain s1 where s1: "run_step ps s = Inr s1"
    by (cases "run_step ps s") simp_all
  from Suc.prems(3) have "\<not> unchanged_pass ps s 0" by simp
  with s1 have differ: "int (changes s1) \<noteq> int (changes s)" by (simp add: unchanged_pass_0)
  have "run_steps ps (Suc n) s1 = Inr t" using Suc.prems(1) s1 by simp
  moreover have "unchanged_pass ps s1 n"
    using Suc.prems(2) unchanged_pass_Suc [OF s1] by simp
  moreover have "\<forall>k<n. \<not> unchanged_pass ps s1 k"
  proof (intro allI impI)
    fix k assume "k < n"
    then have "\<not> unchanged_pass ps s (Suc k)" using Suc.prems(3) by simp
    then show "\<not> unchanged_pass ps s1 k" using unchanged_pass_Suc [OF s1] by simp
  qed
  ultimately have "run_loop ps (int (changes s)) s1 = Some (Inr t)"
    using differ by (rule Suc.IH)
  then show ?case using s1 Suc.prems(4) by (subst run_loop.simps) simp
qed

lemma run_loop_first_entry:
  "run_loop ps (- 1) s = Some (Inr t) \<longleftrightarrow> stops_at ps s t"
proof
  assume "run_loop ps (- 1) s = Some (Inr t)"
  from run_loop_stops_aux [OF this] show "stops_at ps s t" by simp
next
  assume "stops_at ps s t"
  then obtain n where "run_steps ps (Suc n) s = Inr t" "unchanged_pass ps s n"
    "\<forall>k<n. \<not> unchanged_pass ps s k"
    unfolding stops_at_def by blast
  then show "run_loop ps (- 1) s = Some (Inr t)" by (rule run_loop_returns) simp
qed

text \<open>
  Claim C3. \<^verbatim>\<open>run\<close> executes \<^verbatim>\<open>short_circuit\<close> first. When it answers true, \<^verbatim>\<open>run\<close>
  returns with the object and the world as \<^verbatim>\<open>short_circuit\<close> left them, whatever
  \<^verbatim>\<open>preamble\<close> and \<^verbatim>\<open>run_step\<close> are: neither has run. When it answers false and leaves
  \<open>s0\<close>, the preamble runs once, on \<open>s0\<close>, and gives \<open>s1\<close>. Without \<^verbatim>\<open>full\<close> the result is
  that of one \<^verbatim>\<open>run_step\<close> on \<open>s1\<close>. With \<^verbatim>\<open>full\<close>, \<^verbatim>\<open>run\<close> returns \<open>t\<close> exactly when
  \<open>t\<close> is the object after \<open>n + 1\<close> passes from \<open>s1\<close>, the last of which left \<^verbatim>\<open>changes\<close>
  unchanged while none of the \<open>n\<close> passes before it did. An error that escapes
  \<^verbatim>\<open>short_circuit\<close> or \<^verbatim>\<open>preamble\<close> escapes \<^verbatim>\<open>run\<close>.
\<close>

theorem run_passes:
  "(short_circuit P s = Inr (True, s0) \<longrightarrow> run P s = Some (Inr s0)) \<and>
   (short_circuit P s = Inr (False, s0) \<and> preamble P s0 = Inr s1 \<and> \<not> full s1 \<longrightarrow>
      run P s = Some (run_step P s1)) \<and>
   (short_circuit P s = Inr (False, s0) \<and> preamble P s0 = Inr s1 \<and> full s1 \<longrightarrow>
      (run P s = Some (Inr t) \<longleftrightarrow>
         (\<exists>n. run_steps P (Suc n) s1 = Inr t \<and> unchanged_pass P s1 n \<and>
              (\<forall>k<n. \<not> unchanged_pass P s1 k)))) \<and>
   (short_circuit P s = Inl e \<longrightarrow> run P s = Some (Inl e)) \<and>
   (short_circuit P s = Inr (False, s0) \<and> preamble P s0 = Inl e \<longrightarrow> run P s = Some (Inl e))"
  using run_loop_first_entry [of P s1 t]
  by (simp add: run_def stops_at_def)

theorem run_passes_witness:
  "run (toy_passes accepting_hooks) (init accepting_hooks 7 () True 0)
     = Some (Inr \<lparr>current = 0, random_source = (), full = True, changes = 1,
                  seen = {0}, world = 3\<rparr>) \<and>
   run (toy_passes toy_hooks) (init toy_hooks 7 () False 0)
     = Some (run_step (toy_passes toy_hooks)
               \<lparr>current = 7, random_source = (), full = False, changes = 0,
                seen = {0}, world = 3\<rparr>) \<and>
   (\<exists>n. run_steps (toy_passes toy_hooks) (Suc n)
          \<lparr>current = 7, random_source = (), full = True, changes = 0, seen = {0}, world = 3\<rparr>
          = Inr \<lparr>current = 5, random_source = (), full = True, changes = 2,
                 seen = {4, 5, 6, 0}, world = 14\<rparr> \<and>
        unchanged_pass (toy_passes toy_hooks)
          \<lparr>current = 7, random_source = (), full = True, changes = 0, seen = {0}, world = 3\<rparr>
          n \<and>
        (\<forall>k<n. \<not> unchanged_pass (toy_passes toy_hooks)
          \<lparr>current = 7, random_source = (), full = True, changes = 0, seen = {0}, world = 3\<rparr>
          k)) \<and>
   run (toy_passes strict_hooks) (init strict_hooks 7 () True 0) = Some (Inl InvariantViolation)"
proof -
  let ?P = "toy_passes toy_hooks"
  let ?A = "toy_passes accepting_hooks"
  let ?a = "\<lparr>current = 0 :: int, random_source = (), full = True, changes = 1,
             seen = {0}, world = 3 :: nat\<rparr>"
  let ?s0 = "\<lambda>fm. \<lparr>current = 7 :: int, random_source = (), full = fm, changes = 0,
                  seen = {0}, world = 3 :: nat\<rparr>"
  let ?t = "\<lparr>current = 5 :: int, random_source = (), full = True, changes = 2,
             seen = {4, 5, 6, 0}, world = 14 :: nat\<rparr>"
  have stop: "short_circuit ?A (init accepting_hooks 7 () True 0) = Inr (True, ?a)"
    by (simp add: toy_passes_def accepting_hooks_def toy_hooks_def init_def consider'_def
          incorporate_def)
  have go: "short_circuit ?P (init toy_hooks 7 () fm 0) = Inr (False, ?s0 fm)"
    "preamble ?P (?s0 fm) = Inr (?s0 fm)" for fm
    by (simp_all add: toy_passes_def toy_hooks_def init_def consider'_def incorporate_def)
  have raise: "short_circuit (toy_passes strict_hooks) (init strict_hooks 7 () True 0)
                 = Inl InvariantViolation"
    by (simp add: toy_passes_def strict_hooks_def toy_hooks_def init_def consider'_def
          incorporate_def)
  from run_passes [of ?A "init accepting_hooks 7 () True 0" ?a] stop
  have "run ?A (init accepting_hooks 7 () True 0) = Some (Inr ?a)"
    by blast
  moreover
  from run_passes [of ?P "init toy_hooks 7 () False 0" "?s0 False" "?s0 False"] go [of False]
  have "run ?P (init toy_hooks 7 () False 0) = Some (run_step ?P (?s0 False))"
    by simp
  moreover
  from run_passes [of ?P "init toy_hooks 7 () True 0" "?s0 True" "?s0 True" ?t]
    go [of True] run_toy
  have "\<exists>n. run_steps ?P (Suc n) (?s0 True) = Inr ?t \<and>
          unchanged_pass ?P (?s0 True) n \<and>
          (\<forall>k<n. \<not> unchanged_pass ?P (?s0 True) k)"
    by simp
  moreover
  from run_passes [where P = "toy_passes strict_hooks" and s = "init strict_hooks 7 () True 0"
      and e = InvariantViolation] raise
  have "run (toy_passes strict_hooks) (init strict_hooks 7 () True 0)
          = Some (Inl InvariantViolation)"
    by blast
  ultimately show ?thesis by blast
qed

end
